theory Spec2Isabelle
  imports Main
begin

section \<open>Settings\<close>

text \<open>
  The module constants of \<^verbatim>\<open>govmap_geoserver.py\<close>. The delays only pace the requests
  and are left out.
\<close>

definition CHUNK_SIZE :: nat where
  "CHUNK_SIZE = 2000"

definition FORCE_OVERWRITE :: bool where
  "FORCE_OVERWRITE = False"

section \<open>The outside world\<close>

text \<open>
  One layer is processed at a time, so the layer name is fixed and the upstream is what
  it answers for that layer. A page request \<^verbatim>\<open>requests.get(url, timeout=60)\<close> followed by
  \<^verbatim>\<open>raise_for_status()\<close> and \<^verbatim>\<open>resp.json()\<close> ends in one of three ways: the timeout
  exception, any other exception, or a decoded body. A body is kept as the value of its
  \<^verbatim>\<open>"features"\<close> entry: \<open>None\<close> when the body is empty or has no such entry.

  Offsets and sizes are natural numbers: the downloader only passes the starts of
  \<^verbatim>\<open>range(0, count, CHUNK_SIZE)\<close>, the size \<^verbatim>\<open>CHUNK_SIZE\<close> and the default floor, and
  the fetcher derives its sub-windows from these. The upstream is a function of the
  window: within one run no window is requested twice (this is proved at the end).
\<close>

datatype 'r reply = Timeout | Failure | Json "'r list option"

type_synonym 'r transport = "nat \<Rightarrow> nat \<Rightarrow> 'r reply"

text \<open>The exceptions the code can meet: \<^verbatim>\<open>requests.exceptions.Timeout\<close>, and the
  \<^verbatim>\<open>ValueError\<close> of \<^verbatim>\<open>range()\<close> with a zero step.\<close>

datatype exn = RequestsTimeout | ValueError

text \<open>A request URL is determined by its \<^verbatim>\<open>count\<close> and \<^verbatim>\<open>startIndex\<close> parameters.\<close>

datatype url = Url nat nat

text \<open>
  The observable effects, in program order: the HTTP requests and the log lines of level
  warning and error (info lines are left out).
\<close>

datatype msg =
    Number_matched_missing
  | Count_failed
  | Timeout_fetching nat nat
  | Failed_to_fetch nat nat
  | Error_fetching nat nat
  | Min_chunk_reached nat
  | Retrying nat nat nat
  | Missing_chunk nat nat
  | Could_not_read_existing
  | No_features_found
  | No_data_returned nat url
  | No_features_in_chunk nat url
  | Error_reading nat
  | No_valid_frames
  | Missing_chunks_for_layer
  | Chunk_starting_at nat url

datatype event = Hits_request | Request nat nat | Warning msg | Error msg

fun requests :: "event list \<Rightarrow> (nat \<times> nat) list" where
  "requests [] = []"
| "requests (Request s c # es) = (s, c) # requests es"
| "requests (e # es) = requests es"

section \<open>Layer Counter\<close>

text \<open>
  What the count query gives: an exception anywhere in the \<^verbatim>\<open>try\<close> block (the request,
  the status, the XML, the \<^verbatim>\<open>int()\<close> conversion), or the root element with its
  \<^verbatim>\<open>numberMatched\<close> attribute, if present.
\<close>

datatype hits_reply = Hits_failed | Hits_root "int option"

definition get_feature_count :: "hits_reply \<Rightarrow> event list \<times> int" where
  "get_feature_count h =
     (case h of
        Hits_root (Some number_matched) \<Rightarrow> ([Hits_request], number_matched)
      | Hits_root None \<Rightarrow> ([Hits_request, Warning Number_matched_missing], 0)
      | Hits_failed \<Rightarrow> ([Hits_request, Error Count_failed], 0))"

section \<open>Transport\<close>

text \<open>\<^verbatim>\<open>fetch_features\<close> re-raises a timeout and turns every other failure into \<^verbatim>\<open>None\<close>.\<close>

definition fetch_features ::
  "'r transport \<Rightarrow> nat \<Rightarrow> nat \<Rightarrow> event list \<times> (exn + 'r list option option)" where
  "fetch_features t start_index count =
     (case t start_index count of
        Json data \<Rightarrow> ([Request start_index count], Inr (Some data))
      | Timeout \<Rightarrow>
          ([Request start_index count, Warning (Timeout_fetching start_index count)],
           Inl RequestsTimeout)
      | Failure \<Rightarrow>
          ([Request start_index count, Error (Failed_to_fetch start_index count)],
           Inr None))"

section \<open>Adaptive Fetcher\<close>

text \<open>\<^verbatim>\<open>range(a, b, step)\<close> for a non-negative step: a zero step raises.\<close>

definition py_range :: "nat \<Rightarrow> nat \<Rightarrow> nat \<Rightarrow> exn + nat list" where
  "py_range a b step =
     (if step = 0 then Inl ValueError
      else Inr (map (\<lambda>k. a + k * step) [0..<(b - a + step - 1) div step]))"

text \<open>
  The loop header and its first statement: \<^verbatim>\<open>for sub_start in range(start_index,
  start_index + count, small_count)\<close> with \<^verbatim>\<open>sub_count = min(small_count, start_index + count
  - sub_start)\<close> run through these pairs.
\<close>

definition sub_windows :: "nat \<Rightarrow> nat \<Rightarrow> nat \<Rightarrow> exn + (nat \<times> nat) list" where
  "sub_windows start_index count small_count =
     (case py_range start_index (start_index + count) small_count of
        Inl e \<Rightarrow> Inl e
      | Inr sub_starts \<Rightarrow>
          Inr (map (\<lambda>sub_start. (sub_start, min small_count (start_index + count - sub_start)))
                 sub_starts))"

text \<open>
  \<^verbatim>\<open>int(count * 0.1)\<close> is \<open>count div 10\<close>: the double nearest to one tenth exceeds it by
  a factor of \<open>1 + 2\<^sup>-\<^sup>5\<^sup>4\<close>, which the rounding of the product absorbs for every count
  below \<open>2\<^sup>5\<^sup>2\<close>.

  The loop over the sub-windows is a fold whose state is the log so far and the list
  \<^verbatim>\<open>features\<close>. An exception of a recursive call is caught inside the loop; the one of
  \<^verbatim>\<open>range()\<close> is raised outside of it and leaves the function. The second handler of the
  first \<^verbatim>\<open>try\<close> catches what is not a timeout.
\<close>

function fetch_features_with_retry ::
  "'r transport \<Rightarrow> nat \<Rightarrow> nat \<Rightarrow> nat \<Rightarrow> event list \<times> (exn + 'r list)" where
  "fetch_features_with_retry t start_index count min_chunk =
     (case fetch_features t start_index count of
        (tr, Inr data) \<Rightarrow>
          (tr, Inr (case data of Some (Some features) \<Rightarrow> features | _ \<Rightarrow> []))
      | (tr, Inl ValueError) \<Rightarrow>
          (tr @ [Error (Error_fetching start_index count)], Inr [])
      | (tr, Inl RequestsTimeout) \<Rightarrow>
          if count \<le> min_chunk
          then (tr @ [Error (Min_chunk_reached start_index)], Inr [])
          else
            let small_count = max (count div 10) min_chunk;
                tr1 = tr @ [Warning (Retrying start_index count small_count)]
            in (case sub_windows start_index count small_count of
                  Inl e \<Rightarrow> (tr1, Inl e)
                | Inr subs \<Rightarrow>
                    (case fold
                        (\<lambda>sub acc.
                           (case fetch_features_with_retry t (fst sub) (snd sub) min_chunk of
                              (tr_sub, Inr sub_features) \<Rightarrow>
                                (fst acc @ tr_sub, snd acc @ sub_features)
                            | (tr_sub, Inl e) \<Rightarrow>
                                (fst acc @ tr_sub @ [Error (Missing_chunk (fst sub) (snd sub))],
                                 snd acc)))
                        subs (tr1, [])
                     of (tr2, features) \<Rightarrow> (tr2, Inr features))))"
  by pat_completeness auto
termination
proof (relation "measure (\<lambda>(t, start_index, count, min_chunk). count)")
  show "wf (measure (\<lambda>(t, start_index, count, min_chunk). count))"
    by simp
next
  fix t :: "'r transport" and start_index count min_chunk small_count :: nat
    and subs :: "(nat \<times> nat) list" and sub :: "nat \<times> nat"
  assume big: "\<not> count \<le> min_chunk"
    and small: "small_count = max (count div 10) min_chunk"
    and subs: "sub_windows start_index count small_count = Inr subs"
    and sub: "sub \<in> set subs"
  from subs sub have "snd sub \<le> small_count"
    by (auto simp: sub_windows_def py_range_def split: if_splits)
  moreover from big small have "small_count < count"
    by (simp add: max_def)
  ultimately show "((t, fst sub, snd sub, min_chunk), (t, start_index, count, min_chunk))
      \<in> measure (\<lambda>(t, start_index, count, min_chunk). count)"
    by simp
qed

declare fetch_features_with_retry.simps [simp del]

section \<open>Existing-Output Check\<close>

text \<open>
  The GeoPackage of the layer in the output directory: no file, a file that
  \<^verbatim>\<open>gpd.read_file\<close> cannot read, or a file holding records.
\<close>

datatype 'r gpkg = Absent | Unreadable | Stored "'r list"

definition check_existing_geopackage :: "'r gpkg \<Rightarrow> int \<Rightarrow> event list \<times> bool" where
  "check_existing_geopackage g expected_count =
     (case g of
        Absent \<Rightarrow> ([], False)
      | Unreadable \<Rightarrow> ([Warning Could_not_read_existing], False)
      | Stored gdf \<Rightarrow>
          (let actual_count = int (length gdf)
           in if actual_count = expected_count then ([], True) else ([], False)))"

section \<open>Layer Downloader\<close>

text \<open>
  The locals of \<^verbatim>\<open>process_layer\<close> that the window loop updates, with the log. A chunk
  file is known by the start of its window and holds the features written to it.
\<close>

record 'r locals =
  events :: "event list"
  tmp_files :: "(nat \<times> 'r list) list"
  total_fetched :: nat
  missing_chunks :: "(nat \<times> url) list"

text \<open>The body of \<^verbatim>\<open>for start in range(0, count, CHUNK_SIZE)\<close>. The fetcher is called
  with the size \<^verbatim>\<open>CHUNK_SIZE\<close> for every window and with the default floor 1.\<close>

definition window_step :: "'r transport \<Rightarrow> nat \<Rightarrow> 'r locals \<Rightarrow> 'r locals" where
  "window_step t start st =
     (case fetch_features_with_retry t start CHUNK_SIZE 1 of
        (tr, Inl e) \<Rightarrow>
          st\<lparr>events := events st @ tr @ [Error (No_data_returned start (Url CHUNK_SIZE start))],
             missing_chunks := missing_chunks st @ [(start, Url CHUNK_SIZE start)]\<rparr>
      | (tr, Inr features) \<Rightarrow>
          if features = []
          then st\<lparr>events := events st @ tr @
                      [Warning (No_features_in_chunk start (Url CHUNK_SIZE start))],
                  missing_chunks := missing_chunks st @ [(start, Url CHUNK_SIZE start)]\<rparr>
          else st\<lparr>events := events st @ tr,
                  tmp_files := tmp_files st @ [(start, features)],
                  total_fetched := total_fetched st + length features\<rparr>)"

text \<open>
  The merge loop: a chunk file that \<^verbatim>\<open>gpd.read_file\<close> cannot read is logged and left
  out; every chunk file is removed. \<open>readable\<close> says which chunk files can be read back.
\<close>

definition merge_step ::
  "(nat \<Rightarrow> bool) \<Rightarrow> nat \<times> 'r list \<Rightarrow> event list \<times> 'r list list \<Rightarrow> event list \<times> 'r list list" where
  "merge_step readable path acc =
     (if readable (fst path) then (fst acc, snd acc @ [snd path])
      else (fst acc @ [Error (Error_reading (fst path))], snd acc))"

text \<open>
  What a run of \<^verbatim>\<open>process_layer\<close> leaves behind: the log, the GeoPackage of the layer,
  the exception that left the function (if any), and the values of \<^verbatim>\<open>total_fetched\<close> and
  \<^verbatim>\<open>missing_chunks\<close> at the return. Writing the chunk files and the GeoPackage is
  taken to succeed.
\<close>

record 'r outcome =
  log :: "event list"
  gpkg_after :: "'r gpkg"
  raised :: "exn option"
  fetched :: nat
  missing :: "(nat \<times> url) list"

definition process_layer ::
  "hits_reply \<Rightarrow> 'r transport \<Rightarrow> (nat \<Rightarrow> bool) \<Rightarrow> 'r gpkg \<Rightarrow> 'r outcome" where
  "process_layer h t readable g =
     (case get_feature_count h of (tr_count, count) \<Rightarrow>
        if count = 0
        then \<lparr>log = tr_count @ [Warning No_features_found], gpkg_after = g, raised = None,
              fetched = 0, missing = []\<rparr>
        else
          (case (if FORCE_OVERWRITE then ([], False) else check_existing_geopackage g count) of
             (tr_check, complete) \<Rightarrow>
               if \<not> FORCE_OVERWRITE \<and> complete
               then \<lparr>log = tr_count @ tr_check, gpkg_after = g, raised = None,
                     fetched = 0, missing = []\<rparr>
               else
                 (case py_range 0 (nat count) CHUNK_SIZE of
                    Inl e \<Rightarrow>
                      \<lparr>log = tr_count @ tr_check, gpkg_after = g, raised = Some e,
                       fetched = 0, missing = []\<rparr>
                  | Inr starts \<Rightarrow>
                      (let st = fold (window_step t) starts
                                  \<lparr>events = tr_count @ tr_check, tmp_files = [],
                                   total_fetched = 0, missing_chunks = []\<rparr>;
                           merged = fold (merge_step readable) (tmp_files st) (events st, []);
                           gdfs = snd merged
                       in if gdfs = []
                          then \<lparr>log = fst merged @ [Warning No_valid_frames], gpkg_after = g,
                                raised = None, fetched = total_fetched st,
                                missing = missing_chunks st\<rparr>
                          else \<lparr>log = fst merged @
                                  (if missing_chunks st = [] then []
                                   else Warning Missing_chunks_for_layer #
                                        map (\<lambda>m. Warning (Chunk_starting_at (fst m) (snd m)))
                                          (missing_chunks st)),
                                gpkg_after = Stored (concat gdfs), raised = None,
                                fetched = total_fetched st, missing = missing_chunks st\<rparr>))))"

section \<open>Derived notions\<close>

text \<open>
  What one pass of the sub-window loop adds for the sub-window \<open>sub\<close>: to the log, and to
  \<^verbatim>\<open>features\<close>.
\<close>

definition sub_trace :: "'r transport \<Rightarrow> nat \<Rightarrow> nat \<times> nat \<Rightarrow> event list" where
  "sub_trace t min_chunk sub =
     (case fetch_features_with_retry t (fst sub) (snd sub) min_chunk of
        (tr_sub, Inr fs) \<Rightarrow> tr_sub
      | (tr_sub, Inl e) \<Rightarrow> tr_sub @ [Error (Missing_chunk (fst sub) (snd sub))])"

definition sub_records :: "'r transport \<Rightarrow> nat \<Rightarrow> nat \<times> nat \<Rightarrow> 'r list" where
  "sub_records t min_chunk sub =
     (case fetch_features_with_retry t (fst sub) (snd sub) min_chunk of
        (tr_sub, Inr fs) \<Rightarrow> fs
      | (tr_sub, Inl e) \<Rightarrow> [])"

text \<open>
  The records the downloader obtains for the window that starts at \<open>start\<close>, from its call
  \<^verbatim>\<open>fetch_features_with_retry(layer_name, start, CHUNK_SIZE)\<close>; none when the call raises.
\<close>

definition window_records :: "'r transport \<Rightarrow> nat \<Rightarrow> 'r list" where
  "window_records t start =
     (case snd (fetch_features_with_retry t start CHUNK_SIZE 1) of
        Inr features \<Rightarrow> features
      | Inl e \<Rightarrow> [])"

text \<open>
  The starts of the windows of a layer with \<open>count\<close> records, as
  \<^verbatim>\<open>range(0, count, CHUNK_SIZE)\<close> lists them, and what one pass of the window loop adds
  to the log.
\<close>

definition window_starts :: "int \<Rightarrow> nat list" where
  "window_starts count =
     map (\<lambda>k. k * CHUNK_SIZE) [0..<(nat count + CHUNK_SIZE - 1) div CHUNK_SIZE]"

definition window_trace :: "'r transport \<Rightarrow> nat \<Rightarrow> event list" where
  "window_trace t start =
     (case fetch_features_with_retry t start CHUNK_SIZE 1 of
        (tr, Inl e) \<Rightarrow> tr @ [Error (No_data_returned start (Url CHUNK_SIZE start))]
      | (tr, Inr features) \<Rightarrow>
          if features = []
          then tr @ [Warning (No_features_in_chunk start (Url CHUNK_SIZE start))]
          else tr)"

text \<open>
  The fetcher has settled a window it requested, as the log \<open>tr\<close> shows it, when the
  upstream answered with a body, or failed otherwise and the failure is logged, or timed
  out with the window at the floor and the log says that the floor was reached there.
\<close>

definition leaf_logged :: "'r transport \<Rightarrow> nat \<Rightarrow> event list \<Rightarrow> nat \<times> nat \<Rightarrow> bool" where
  "leaf_logged t min_chunk tr w =
     (case t (fst w) (snd w) of
        Json d \<Rightarrow> True
      | Failure \<Rightarrow> Error (Failed_to_fetch (fst w) (snd w)) \<in> set tr
      | Timeout \<Rightarrow> snd w \<le> min_chunk \<and> Error (Min_chunk_reached (fst w)) \<in> set tr)"

text \<open>
  The windows \<open>ws\<close>, in their order, cover the offsets from \<open>a\<close> up to \<open>b\<close>: each
  starts where the one before ends.
\<close>

fun tiles :: "nat \<Rightarrow> (nat \<times> nat) list \<Rightarrow> nat \<Rightarrow> bool" where
  "tiles a [] b = (a = b)"
| "tiles a (w # ws) b = (fst w = a \<and> tiles (a + snd w) ws b)"



section \<open>Example upstreams\<close>

text \<open>An upstream that serves every window in full; a record is its offset.\<close>

definition healthy :: "nat transport" where
  "healthy s c = Json (Some [s..<s + c])"

text \<open>An upstream that never answers in time, and one that always fails otherwise.\<close>

definition stalled :: "nat transport" where
  "stalled s c = Timeout"

definition broken :: "nat transport" where
  "broken s c = Failure"

text \<open>
  An upstream that holds one record it cannot serve in time, at the offset \<open>b\<close>: every
  window that contains \<open>b\<close> times out, every other window is served in full.
\<close>

definition one_bad :: "nat \<Rightarrow> nat transport" where
  "one_bad b s c = (if s \<le> b \<and> b < s + c then Timeout else Json (Some [s..<s + c]))"

text \<open>An upstream that times out on every window of more than 200 records and serves
  the others in full.\<close>

definition slow :: "nat transport" where
  "slow s c = (if 200 < c then Timeout else Json (Some [s..<s + c]))"

section \<open>The invariant of the data model, in the words of the specification\<close>

text \<open>
  An offset is accounted for by a run when a page that was fetched holds a record for it
  (the page of a window \<open>(s, c)\<close> that came back with \<open>n\<close> records covers the offsets from
  \<open>s\<close> up to \<open>s + n\<close>), or when it lies in a range of the missing list (an entry stands
  for the range that its URL requests).
\<close>

definition spec_offset_accounted :: "'r transport \<Rightarrow> 'r outcome \<Rightarrow> nat \<Rightarrow> bool" where
  "spec_offset_accounted t out offset =
     (list_ex (\<lambda>w. case t (fst w) (snd w) of
                      Json (Some page) \<Rightarrow> fst w \<le> offset \<and> offset < fst w + length page
                    | _ \<Rightarrow> False)
        (requests (log out))
      \<or> list_ex (\<lambda>m. case snd m of Url c s \<Rightarrow> s \<le> offset \<and> offset < s + c) (missing out))"

section \<open>The order of the upstream\<close>

text \<open>
  What the ordering guarantee takes for granted of the upstream, for a sort key \<open>key\<close>:
  every page is in ascending order of the key, and the records of a page are not above
  those of a page whose window starts at or after the end of its own. A record is in the
  pages of a window when a page of some window inside it holds it.
\<close>

definition pages_sorted :: "('r \<Rightarrow> 'k::linorder) \<Rightarrow> 'r transport \<Rightarrow> bool" where
  "pages_sorted key t = (\<forall>s c page. t s c = Json (Some page) \<longrightarrow> sorted (map key page))"

definition pages_ascend :: "('r \<Rightarrow> 'k::linorder) \<Rightarrow> 'r transport \<Rightarrow> bool" where
  "pages_ascend key t =
     (\<forall>s c page s' c' page'.
        t s c = Json (Some page) \<and> t s' c' = Json (Some page') \<and> s + c \<le> s' \<longrightarrow>
        (\<forall>x\<in>set page. \<forall>y\<in>set page'. key x \<le> key y))"

definition in_pages :: "'r transport \<Rightarrow> nat \<Rightarrow> nat \<Rightarrow> 'r \<Rightarrow> bool" where
  "in_pages t s c x =
     (\<exists>s' c' page. s \<le> s' \<and> s' + c' \<le> s + c \<and> t s' c' = Json (Some page) \<and> x \<in> set page)"

section \<open>The fetcher, case by case\<close>

lemma retry_loop_fold:
  "fold (\<lambda>sub acc.
           (case fetch_features_with_retry t (fst sub) (snd sub) min_chunk of
              (tr_sub, Inr fs) \<Rightarrow> (fst acc @ tr_sub, snd acc @ fs)
            | (tr_sub, Inl e) \<Rightarrow>
                (fst acc @ tr_sub @ [Error (Missing_chunk (fst sub) (snd sub))], snd acc)))
      subs acc
   = (fst acc @ concat (map (sub_trace t min_chunk) subs),
      snd acc @ concat (map (sub_records t min_chunk) subs))"
proof (induction subs arbitrary: acc)
  case Nil
  show ?case by simp
next
  case (Cons sub subs)
  show ?case
    by (simp add: Cons.IH sub_trace_def sub_records_def split: prod.splits sum.splits)
qed

lemma fetch_Json:
  "t s c = Json d \<Longrightarrow>
   fetch_features_with_retry t s c m =
     ([Request s c], Inr (case d of Some features \<Rightarrow> features | None \<Rightarrow> []))"
  by (simp add: fetch_features_with_retry.simps [of t s c m] fetch_features_def
      split: option.splits)

lemma fetch_Failure:
  "t s c = Failure \<Longrightarrow>
   fetch_features_with_retry t s c m = ([Request s c, Error (Failed_to_fetch s c)], Inr [])"
  by (simp add: fetch_features_with_retry.simps [of t s c m] fetch_features_def)

lemma fetch_floor:
  "t s c = Timeout \<Longrightarrow> c \<le> m \<Longrightarrow>
   fetch_features_with_retry t s c m =
     ([Request s c, Warning (Timeout_fetching s c), Error (Min_chunk_reached s)], Inr [])"
  by (simp add: fetch_features_with_retry.simps [of t s c m] fetch_features_def)

lemma fetch_range_error:
  "t s c = Timeout \<Longrightarrow> \<not> c \<le> m \<Longrightarrow> sub_windows s c (max (c div 10) m) = Inl e \<Longrightarrow>
   fetch_features_with_retry t s c m =
     ([Request s c, Warning (Timeout_fetching s c), Warning (Retrying s c (max (c div 10) m))],
      Inl e)"
  by (simp add: fetch_features_with_retry.simps [of t s c m] fetch_features_def)

lemma fetch_shrink:
  "t s c = Timeout \<Longrightarrow> \<not> c \<le> m \<Longrightarrow> sub_windows s c (max (c div 10) m) = Inr subs \<Longrightarrow>
   fetch_features_with_retry t s c m =
     ([Request s c, Warning (Timeout_fetching s c), Warning (Retrying s c (max (c div 10) m))]
        @ concat (map (sub_trace t m) subs),
      Inr (concat (map (sub_records t m) subs)))"
  by (simp add: fetch_features_with_retry.simps [of t s c m] fetch_features_def retry_loop_fold)

lemma sub_windows_zero: "sub_windows s c 0 = Inl ValueError"
  by (simp add: sub_windows_def py_range_def)

lemma sub_windows_eq:
  "0 < k \<Longrightarrow>
   sub_windows s c k = Inr (map (\<lambda>i. (s + i * k, min k (c - i * k))) [0..<(c + k - 1) div k])"
  by (simp add: sub_windows_def py_range_def o_def)

lemma requests_append [simp]: "requests (xs @ ys) = requests xs @ requests ys"
  by (induction xs rule: requests.induct) simp_all

lemma requests_concat: "requests (concat xss) = concat (map requests xss)"
  by (induction xss) simp_all

subsection \<open>Only a timeout shrinks\<close>

text \<open>
  C6. A page of records, empty or not, is returned as it is after the one request, and a
  failure that is not a timeout gives the empty list after the one request, logged: in
  both cases the window is requested once and nothing else is.
\<close>

theorem only_timeout_shrinks:
  "(t s c = Json d \<longrightarrow>
      fetch_features_with_retry t s c m =
        ([Request s c], Inr (case d of Some page \<Rightarrow> page | None \<Rightarrow> [])))
   \<and> (t s c = Failure \<longrightarrow>
      fetch_features_with_retry t s c m =
        ([Request s c, Error (Failed_to_fetch s c)], Inr []))
   \<and> (t s c \<noteq> Timeout \<longrightarrow> requests (fst (fetch_features_with_retry t s c m)) = [(s, c)])"
proof -
  have "requests (fst (fetch_features_with_retry t s c m)) = [(s, c)]" if "t s c \<noteq> Timeout"
    using that by (cases "t s c") (simp_all add: fetch_Json fetch_Failure)
  then show ?thesis
    by (simp add: fetch_Json fetch_Failure)
qed

theorem only_timeout_shrinks_witness:
  "fetch_features_with_retry healthy 4000 3 1 = ([Request 4000 3], Inr [4000, 4001, 4002])
   \<and> fetch_features_with_retry healthy 4000 0 1 = ([Request 4000 0], Inr [])
   \<and> fetch_features_with_retry broken 0 2000 1 =
       ([Request 0 2000, Error (Failed_to_fetch 0 2000)], Inr [])
   \<and> requests (fst (fetch_features_with_retry broken 0 2000 1)) = [(0, 2000)]"
proof -
  have a: "healthy 4000 3 = Json (Some [4000, 4001, 4002])"
    by (simp add: healthy_def upt_conv_Cons)
  have b: "healthy 4000 0 = Json (Some [])"
    by (simp add: healthy_def)
  have c: "broken 0 2000 = Failure" "broken 0 2000 \<noteq> Timeout"
    by (simp_all add: broken_def)
  show ?thesis
    using only_timeout_shrinks [of healthy 4000 3 "Some [4000, 4001, 4002]" 1]
      only_timeout_shrinks [of healthy 4000 0 "Some []" 1]
      only_timeout_shrinks [of broken 0 2000 None 1] a b c
    by simp
qed

subsection \<open>The floor\<close>

text \<open>
  C2, as the code has it. On a timeout for a window whose size is at most the floor the
  fetcher stops: the window is requested once, nothing else is requested, the error line
  names the start of the window, and the empty list is returned. The fetcher keeps no
  list of unresolved windows: what it hands back is the list of records alone.
\<close>

theorem floor_timeout_stops:
  "t start_index count = Timeout \<Longrightarrow> count \<le> min_chunk \<Longrightarrow>
   fetch_features_with_retry t start_index count min_chunk =
     ([Request start_index count, Warning (Timeout_fetching start_index count),
       Error (Min_chunk_reached start_index)],
      Inr [])"
  by (rule fetch_floor)

theorem floor_timeout_stops_witness:
  "stalled 1999 1 = Timeout \<and> (1::nat) \<le> 1 \<and>
   fetch_features_with_retry stalled 1999 1 1 =
     ([Request 1999 1, Warning (Timeout_fetching 1999 1), Error (Min_chunk_reached 1999)],
      Inr [])"
proof -
  have a: "stalled 1999 1 = Timeout"
    by (simp add: stalled_def)
  have b: "(1::nat) \<le> 1"
    by simp
  from floor_timeout_stops [of stalled 1999 1 1] a b show ?thesis
    by simp
qed

subsection \<open>The sub-windows of a shrink\<close>

lemma tiles_sum: "tiles a ws b \<Longrightarrow> a + sum_list (map snd ws) = b"
proof (induction ws arbitrary: a)
  case Nil
  then show ?case by simp
next
  case (Cons w ws)
  from Cons.prems have "tiles (a + snd w) ws b" by simp
  from Cons.IH [OF this] show ?case by simp
qed

lemma stride_count:
  fixes k c :: nat
  assumes "0 < k" "0 < c"
  shows "0 < (c + k - 1) div k" "((c + k - 1) div k - 1) * k < c" "c \<le> (c + k - 1) div k * k"
proof -
  let ?n = "(c + k - 1) div k"
  have eq: "?n * k + (c + k - 1) mod k = c + k - 1"
    by simp
  have lt: "(c + k - 1) mod k < k"
    using assms by simp
  show "0 < ?n"
    using assms by (simp add: div_greater_zero_iff)
  show "c \<le> ?n * k"
    using eq lt by linarith
  have "?n * k \<le> c + k - 1"
    using eq by linarith
  then have "?n * k - k < c"
    using assms by linarith
  then show "(?n - 1) * k < c"
    by (simp add: diff_mult_distrib)
qed

lemma tiles_strides:
  assumes "0 < k" "(n - 1) * k < c" "c \<le> n * k" "i < n"
  shows "tiles (s + i * k) (map (\<lambda>i. (s + i * k, min k (c - i * k))) [i..<n]) (s + c)"
  using assms(4)
proof (induction "n - i" arbitrary: i)
  case 0
  then show ?case by simp
next
  case (Suc d)
  have step: "[i..<n] = i # [Suc i..<n]"
    using Suc.prems by (simp add: upt_conv_Cons)
  show ?case
  proof (cases "Suc i < n")
    case True
    then have "Suc i * k \<le> (n - 1) * k"
      by (intro mult_le_mono1) simp
    with assms(2) have "k + i * k < c" by simp
    then have m: "min k (c - i * k) = k" by simp
    have e: "s + Suc i * k = s + i * k + k" by simp
    have "tiles (s + Suc i * k) (map (\<lambda>i. (s + i * k, min k (c - i * k))) [Suc i..<n]) (s + c)"
      using Suc.hyps True by (intro Suc.hyps(1)) simp_all
    then have "tiles (s + i * k + k) (map (\<lambda>i. (s + i * k, min k (c - i * k))) [Suc i..<n]) (s + c)"
      by (simp only: e)
    then show ?thesis
      by (simp only: step list.map tiles.simps fst_conv snd_conv m simp_thms)
  next
    case False
    with Suc.prems have n: "Suc i = n" by simp
    then have l: "[i..<n] = [i]"
      by (metis upt_conv_Cons upt_conv_Nil lessI le_refl)
    have lt: "i * k < c" using assms(2) n by auto
    have "c \<le> i * k + k" using assms(3) n by auto
    then have m: "min k (c - i * k) = c - i * k" by simp
    show ?thesis
      using lt by (simp add: l m)
  qed
qed

lemma butlast_upt0: "butlast [0..<n] = [0..<n - 1]"
  by (cases n) simp_all

lemma sub_windows_partition:
  assumes k: "0 < k" and c: "0 < c"
  shows "\<exists>subs. sub_windows s c k = Inr subs
     \<and> subs \<noteq> []
     \<and> map fst subs = map (\<lambda>i. s + i * k) [0..<length subs]
     \<and> (\<forall>w\<in>set (butlast subs). snd w = k)
     \<and> 0 < snd (last subs) \<and> snd (last subs) \<le> k
     \<and> tiles s subs (s + c)
     \<and> sum_list (map snd subs) = c"
proof -
  let ?n = "(c + k - 1) div k"
  let ?f = "\<lambda>i. (s + i * k, min k (c - i * k))"
  let ?subs = "map ?f [0..<?n]"
  note n = stride_count [OF k c]
  have eq: "sub_windows s c k = Inr ?subs"
    using k by (rule sub_windows_eq)
  have ne: "?subs \<noteq> []"
    using n(1) by simp
  have starts: "map fst ?subs = map (\<lambda>i. s + i * k) [0..<length ?subs]"
    by (simp add: o_def)
  have full: "snd w = k" if "w \<in> set (butlast ?subs)" for w
  proof -
    from that obtain i where i: "i < ?n - 1" and w: "w = ?f i"
      by (auto simp: map_butlast [symmetric] butlast_upt0)
    from i have "Suc i * k \<le> (?n - 1) * k"
      by (intro mult_le_mono1) simp
    with n(2) have "k + i * k < c" by simp
    then show ?thesis by (simp add: w)
  qed
  have l: "last ?subs = ?f (?n - 1)"
    using n(1) by (simp add: last_map)
  have last_pos: "0 < snd (last ?subs)" and last_le: "snd (last ?subs) \<le> k"
    unfolding l using n(2) k by simp_all
  have t: "tiles s ?subs (s + c)"
    using tiles_strides [OF k n(2) n(3) n(1), of s] by simp
  from tiles_sum [OF t] have sum: "sum_list (map snd ?subs) = c"
    by simp
  from eq ne starts full last_pos last_le t sum show ?thesis
    by blast
qed




section \<open>The downloader, loop by loop\<close>

lemma range_window_starts: "py_range 0 (nat count) CHUNK_SIZE = Inr (window_starts count)"
  by (simp add: py_range_def window_starts_def CHUNK_SIZE_def)

lemma window_step_eq:
  "window_step t start st =
     st\<lparr>events := events st @ window_trace t start,
        tmp_files := tmp_files st @
          (if window_records t start = [] then [] else [(start, window_records t start)]),
        total_fetched := total_fetched st + length (window_records t start),
        missing_chunks := missing_chunks st @
          (if window_records t start = [] then [(start, Url CHUNK_SIZE start)] else [])\<rparr>"
  by (cases "fetch_features_with_retry t start CHUNK_SIZE 1")
    (auto simp: window_step_def window_trace_def window_records_def split: sum.splits)

lemma fold_window_step:
  "events (fold (window_step t) starts st) = events st @ concat (map (window_trace t) starts)"
  "tmp_files (fold (window_step t) starts st) = tmp_files st @
     map (\<lambda>s. (s, window_records t s)) (filter (\<lambda>s. window_records t s \<noteq> []) starts)"
  "total_fetched (fold (window_step t) starts st) =
     total_fetched st + sum_list (map (\<lambda>s. length (window_records t s)) starts)"
  "missing_chunks (fold (window_step t) starts st) = missing_chunks st @
     map (\<lambda>s. (s, Url CHUNK_SIZE s)) (filter (\<lambda>s. window_records t s = []) starts)"
  by (induction starts arbitrary: st) (simp_all add: window_step_eq)

lemma fold_merge_step:
  "fold (merge_step readable) files acc =
     (fst acc @ map (\<lambda>p. Error (Error_reading (fst p))) (filter (\<lambda>p. \<not> readable (fst p)) files),
      snd acc @ map snd (filter (\<lambda>p. readable (fst p)) files))"
proof (induction files arbitrary: acc)
  case Nil
  show ?case by simp
next
  case (Cons p files)
  show ?case
    by (simp add: Cons.IH) (simp add: merge_step_def)
qed

lemma requests_no_request:
  "(\<And>e. e \<in> set es \<Longrightarrow> (\<forall>s c. e \<noteq> Request s c)) \<Longrightarrow> requests es = []"
  by (induction es rule: requests.induct) auto

lemma requests_count: "requests (fst (get_feature_count h)) = []"
  by (simp add: get_feature_count_def split: hits_reply.splits option.splits)

lemma requests_check: "requests (fst (check_existing_geopackage g n)) = []"
  by (simp add: check_existing_geopackage_def Let_def split: gpkg.splits)

lemma requests_window_trace:
  "requests (window_trace t s) = requests (fst (fetch_features_with_retry t s CHUNK_SIZE 1))"
  by (cases "fetch_features_with_retry t s CHUNK_SIZE 1")
    (auto simp: window_trace_def split: sum.splits)

lemma process_layer_run_eq:
  assumes "get_feature_count h = (tr_count, count)" "count \<noteq> 0"
    and "check_existing_geopackage g count = (tr_check, False)"
  shows "process_layer h t readable g =
    (let st = fold (window_step t) (window_starts count)
                \<lparr>events = tr_count @ tr_check, tmp_files = [],
                 total_fetched = 0, missing_chunks = []\<rparr>;
         merged = fold (merge_step readable) (tmp_files st) (events st, []);
         gdfs = snd merged
     in if gdfs = []
        then \<lparr>log = fst merged @ [Warning No_valid_frames], gpkg_after = g,
              raised = None, fetched = total_fetched st,
              missing = missing_chunks st\<rparr>
        else \<lparr>log = fst merged @
                (if missing_chunks st = [] then []
                 else Warning Missing_chunks_for_layer #
                      map (\<lambda>m. Warning (Chunk_starting_at (fst m) (snd m)))
                        (missing_chunks st)),
              gpkg_after = Stored (concat gdfs), raised = None,
              fetched = total_fetched st, missing = missing_chunks st\<rparr>)"
proof -
  have "\<not> FORCE_OVERWRITE"
    by (simp add: FORCE_OVERWRITE_def)
  then show ?thesis
    using assms by (simp add: process_layer_def range_window_starts)
qed

lemma process_layer_run:
  assumes "get_feature_count h = (tr_count, count)" "count \<noteq> 0"
    and "check_existing_geopackage g count = (tr_check, False)"
  shows "missing (process_layer h t readable g) =
           map (\<lambda>s. (s, Url CHUNK_SIZE s))
             (filter (\<lambda>s. window_records t s = []) (window_starts count))"
    and "fetched (process_layer h t readable g) =
           sum_list (map (\<lambda>s. length (window_records t s)) (window_starts count))"
    and "raised (process_layer h t readable g) = None"
    and "gpkg_after (process_layer h t readable g) =
           (if filter (\<lambda>s. window_records t s \<noteq> [] \<and> readable s) (window_starts count) = []
            then g
            else Stored (concat (map (window_records t)
                   (filter (\<lambda>s. window_records t s \<noteq> [] \<and> readable s) (window_starts count)))))"
    and "requests (log (process_layer h t readable g)) =
           concat (map (\<lambda>s. requests (fst (fetch_features_with_retry t s CHUNK_SIZE 1)))
             (window_starts count))"
proof -
  note eq = process_layer_run_eq [OF assms]
  show "missing (process_layer h t readable g) =
           map (\<lambda>s. (s, Url CHUNK_SIZE s))
             (filter (\<lambda>s. window_records t s = []) (window_starts count))"
    by (simp add: eq Let_def fold_window_step)
  show "fetched (process_layer h t readable g) =
           sum_list (map (\<lambda>s. length (window_records t s)) (window_starts count))"
    by (simp add: eq Let_def fold_window_step)
  show "raised (process_layer h t readable g) = None"
    by (simp add: eq Let_def)
  show "gpkg_after (process_layer h t readable g) =
           (if filter (\<lambda>s. window_records t s \<noteq> [] \<and> readable s) (window_starts count) = []
            then g
            else Stored (concat (map (window_records t)
                   (filter (\<lambda>s. window_records t s \<noteq> [] \<and> readable s) (window_starts count)))))"
    by (simp add: eq Let_def fold_window_step fold_merge_step filter_map o_def conj_commute)
  show "requests (log (process_layer h t readable g)) =
           concat (map (\<lambda>s. requests (fst (fetch_features_with_retry t s CHUNK_SIZE 1)))
             (window_starts count))"
  proof -
    have a: "requests tr_count = []" "requests tr_check = []"
      using requests_count [of h] requests_check [of g count] assms by simp_all
    have b: "requests (map (\<lambda>x. Error (f x)) xs) = []" for f :: "'b \<Rightarrow> msg" and xs
      by (rule requests_no_request) auto
    have c: "requests (map (\<lambda>x. Warning (f x)) xs) = []" for f :: "'b \<Rightarrow> msg" and xs
      by (rule requests_no_request) auto
    show ?thesis
      by (simp add: eq Let_def fold_window_step fold_merge_step a b c requests_concat o_def
          requests_window_trace)
  qed
qed

lemma process_layer_nothing:
  "snd (get_feature_count h) = 0 \<Longrightarrow>
   process_layer h t readable g =
     \<lparr>log = fst (get_feature_count h) @ [Warning No_features_found], gpkg_after = g,
      raised = None, fetched = 0, missing = []\<rparr>"
  by (cases "get_feature_count h") (simp add: process_layer_def)

lemma process_layer_complete:
  "snd (get_feature_count h) \<noteq> 0 \<Longrightarrow>
   snd (check_existing_geopackage g (snd (get_feature_count h))) \<Longrightarrow>
   process_layer h t readable g =
     \<lparr>log = fst (get_feature_count h)
              @ fst (check_existing_geopackage g (snd (get_feature_count h))),
      gpkg_after = g, raised = None, fetched = 0, missing = []\<rparr>"
  by (cases "get_feature_count h"; cases "check_existing_geopackage g (snd (get_feature_count h))")
    (simp add: process_layer_def FORCE_OVERWRITE_def)

subsection \<open>Nothing to fetch\<close>

text \<open>
  C7. When the count query fails or the root element has no \<^verbatim>\<open>numberMatched\<close>
  attribute the counter returns 0, and whenever the counter returns 0 the downloader
  requests no page, logs the warning that the layer is skipped, raises nothing and leaves
  the output as it was.
\<close>

theorem zero_count_skips:
  "get_feature_count Hits_failed = ([Hits_request, Error Count_failed], 0)
   \<and> get_feature_count (Hits_root None) = ([Hits_request, Warning Number_matched_missing], 0)
   \<and> (snd (get_feature_count h) = 0 \<longrightarrow>
        requests (log (process_layer h t readable g)) = []
        \<and> log (process_layer h t readable g) =
            fst (get_feature_count h) @ [Warning No_features_found]
        \<and> raised (process_layer h t readable g) = None
        \<and> gpkg_after (process_layer h t readable g) = g
        \<and> fetched (process_layer h t readable g) = 0
        \<and> missing (process_layer h t readable g) = [])"
  by (simp add: process_layer_nothing requests_count) (simp add: get_feature_count_def)

theorem zero_count_skips_witness:
  "snd (get_feature_count Hits_failed) = 0
   \<and> requests (log (process_layer Hits_failed healthy (\<lambda>s. True) Absent)) = []
   \<and> log (process_layer Hits_failed healthy (\<lambda>s. True) Absent) =
       [Hits_request, Error Count_failed, Warning No_features_found]
   \<and> raised (process_layer Hits_failed healthy (\<lambda>s. True) Absent) = None
   \<and> gpkg_after (process_layer Hits_failed healthy (\<lambda>s. True) Absent) = Absent"
  using zero_count_skips [of Hits_failed healthy "\<lambda>s. True" Absent]
  by (simp add: get_feature_count_def)

subsection \<open>The output is already complete\<close>

text \<open>
  C8. \<^verbatim>\<open>FORCE_OVERWRITE\<close> is false. The check says yes exactly when the stored output
  can be read and holds as many records as expected; an output that cannot be read gives
  no, with a warning, and no exception. When the stored output holds exactly the number
  of records that the counter returns, a run requests no page and leaves the output as it
  was, so a second run after a complete one fetches nothing.
\<close>

theorem complete_output_skips:
  "(snd (check_existing_geopackage g expected_count) \<longleftrightarrow>
      (\<exists>gdf. g = Stored gdf \<and> int (length gdf) = expected_count))
   \<and> check_existing_geopackage Unreadable expected_count = ([Warning Could_not_read_existing], False)
   \<and> check_existing_geopackage Absent expected_count = ([], False)
   \<and> (g = Stored gdf \<and> int (length gdf) = snd (get_feature_count h) \<longrightarrow>
        requests (log (process_layer h t readable g)) = []
        \<and> gpkg_after (process_layer h t readable g) = g
        \<and> raised (process_layer h t readable g) = None)"
proof -
  have a: "snd (check_existing_geopackage g expected_count) \<longleftrightarrow>
      (\<exists>gdf. g = Stored gdf \<and> int (length gdf) = expected_count)"
    by (cases g) (simp_all add: check_existing_geopackage_def)
  have b: "requests (log (process_layer h t readable g)) = []
        \<and> gpkg_after (process_layer h t readable g) = g
        \<and> raised (process_layer h t readable g) = None"
    if "g = Stored gdf" "int (length gdf) = snd (get_feature_count h)"
  proof (cases "snd (get_feature_count h) = 0")
    case True
    then show ?thesis
      by (simp add: process_layer_nothing requests_count)
  next
    case False
    moreover have "snd (check_existing_geopackage g (snd (get_feature_count h)))"
      using that by (simp add: check_existing_geopackage_def)
    ultimately show ?thesis
      by (simp add: process_layer_complete requests_count requests_check)
  qed
  show ?thesis
    using a b by (simp add: check_existing_geopackage_def)
qed

theorem complete_output_skips_witness:
  "snd (check_existing_geopackage (Stored [0, 1, 2 :: nat]) 3)
   \<and> \<not> snd (check_existing_geopackage (Stored [0, 1, 2 :: nat]) 4)
   \<and> requests (log (process_layer (Hits_root (Some 3)) healthy (\<lambda>s. True) (Stored [0, 1, 2]))) = []
   \<and> gpkg_after (process_layer (Hits_root (Some 3)) healthy (\<lambda>s. True) (Stored [0, 1, 2])) =
       Stored [0, 1, 2]"
  using complete_output_skips [of "Stored [0, 1, 2 :: nat]" 3 "[0, 1, 2]" "Hits_root (Some 3)" healthy "\<lambda>s. True"]
    complete_output_skips [of "Stored [0, 1, 2 :: nat]" 4 "[0, 1, 2]" "Hits_root (Some 3)" healthy "\<lambda>s. True"]
  by (simp add: get_feature_count_def check_existing_geopackage_def)

subsection \<open>No records, no output\<close>

text \<open>
  C10. If every window of the layer comes back without records, or its chunk file cannot
  be read back when the chunks are merged, the downloader writes no output: the
  GeoPackage of the layer stays as it was.
\<close>

theorem no_records_no_write:
  assumes "\<forall>s\<in>set (window_starts (snd (get_feature_count h))).
             window_records t s = [] \<or> \<not> readable s"
  shows "gpkg_after (process_layer h t readable g) = g"
proof (cases "snd (get_feature_count h) = 0")
  case True
  then show ?thesis
    by (simp add: process_layer_nothing)
next
  case False
  show ?thesis
  proof (cases "snd (check_existing_geopackage g (snd (get_feature_count h)))")
    case True
    with False show ?thesis
      by (simp add: process_layer_complete)
  next
    case no: False
    from assms have "filter (\<lambda>s. window_records t s \<noteq> [] \<and> readable s)
        (window_starts (snd (get_feature_count h))) = []"
      by (auto simp: filter_empty_conv)
    with process_layer_run(4) [of h "fst (get_feature_count h)" "snd (get_feature_count h)" g
        "fst (check_existing_geopackage g (snd (get_feature_count h)))" t readable]
      False no
    show ?thesis
      by (simp add: prod_eq_iff)
  qed
qed

theorem no_records_no_write_witness:
  "window_starts 3000 = [0, 2000]
   \<and> window_records broken 0 = [] \<and> window_records broken 2000 = []
   \<and> gpkg_after (process_layer (Hits_root (Some 3000)) broken (\<lambda>s. True) (Stored [7, 8])) =
       Stored [7, 8]
   \<and> gpkg_after (process_layer (Hits_root (Some 3000)) healthy (\<lambda>s. False) Unreadable) =
       Unreadable"
proof -
  have c: "snd (get_feature_count (Hits_root (Some 3000))) = 3000"
    by (simp add: get_feature_count_def)
  have ws: "window_starts 3000 = [0, 2000]"
    by (simp add: window_starts_def CHUNK_SIZE_def upt_conv_Cons)
  have r: "window_records broken s = []" for s
    by (simp add: window_records_def fetch_Failure broken_def)
  have a: "\<forall>s\<in>set (window_starts (snd (get_feature_count (Hits_root (Some 3000))))).
             window_records broken s = [] \<or> \<not> (\<lambda>s. True) s"
    by (simp add: r)
  have b: "\<forall>s\<in>set (window_starts (snd (get_feature_count (Hits_root (Some 3000))))).
             window_records healthy s = [] \<or> \<not> (\<lambda>s. False) s"
    by simp
  from no_records_no_write [OF a, of "Stored [7, 8]"] no_records_no_write [OF b, of Unreadable]
    ws r
  show ?thesis
    by simp
qed

section \<open>Induction over the shrink recursion\<close>

lemma sub_window_smaller:
  assumes "\<not> c \<le> m" "sub_windows s c (max (c div 10) m) = Inr subs" "w \<in> set subs"
  shows "snd w < c"
proof -
  from assms(2,3) have "snd w \<le> max (c div 10) m"
    by (auto simp: sub_windows_def py_range_def split: if_splits)
  moreover from assms(1) have "max (c div 10) m < c"
    by (simp add: max_def)
  ultimately show ?thesis
    by (rule le_less_trans)
qed

lemma fetch_cases [case_names Json Failure Floor Range_error Shrink]:
  assumes "\<And>s c d. t s c = Json d \<Longrightarrow> P s c"
    and "\<And>s c. t s c = Failure \<Longrightarrow> P s c"
    and "\<And>s c. t s c = Timeout \<Longrightarrow> c \<le> m \<Longrightarrow> P s c"
    and "\<And>s c e. t s c = Timeout \<Longrightarrow> \<not> c \<le> m \<Longrightarrow>
           sub_windows s c (max (c div 10) m) = Inl e \<Longrightarrow> P s c"
    and "\<And>s c subs. t s c = Timeout \<Longrightarrow> \<not> c \<le> m \<Longrightarrow>
           sub_windows s c (max (c div 10) m) = Inr subs \<Longrightarrow>
           (\<And>w. w \<in> set subs \<Longrightarrow> P (fst w) (snd w)) \<Longrightarrow> P s c"
  shows "P s c"
proof (induction c arbitrary: s rule: less_induct)
  case (less c)
  show ?case
  proof (cases "t s c")
    case Timeout
    show ?thesis
    proof (cases "c \<le> m")
      case True
      with Timeout show ?thesis by (rule assms(3))
    next
      case False
      show ?thesis
      proof (cases "sub_windows s c (max (c div 10) m)")
        case (Inl e)
        with Timeout False show ?thesis by (rule assms(4))
      next
        case (Inr subs)
        have "P (fst w) (snd w)" if "w \<in> set subs" for w
          using sub_window_smaller [OF False Inr that] by (rule less.IH)
        with Timeout False Inr show ?thesis by (rule assms(5))
      qed
    qed
  next
    case Failure
    then show ?thesis by (rule assms(2))
  next
    case (Json d)
    then show ?thesis by (rule assms(1))
  qed
qed

lemma fetch_total:
  assumes "1 \<le> m"
  shows "\<exists>tr features. fetch_features_with_retry t s c m = (tr, Inr features)"
proof (cases "t s c")
  case Timeout
  show ?thesis
  proof (cases "c \<le> m")
    case True
    with Timeout show ?thesis by (simp add: fetch_floor)
  next
    case False
    from assms have "0 < max (c div 10) m" by simp
    from sub_windows_eq [OF this] obtain subs
      where "sub_windows s c (max (c div 10) m) = Inr subs" by blast
    from fetch_shrink [of t s c m subs] Timeout False this show ?thesis by blast
  qed
next
  case Failure
  then show ?thesis by (simp add: fetch_Failure)
next
  case (Json d)
  then show ?thesis by (simp add: fetch_Json)
qed







subsection \<open>The fetcher returns a list\<close>




section \<open>What a run records\<close>

lemma sub_window_mem:
  assumes k: "0 < k" and i: "i * k < c" and subs: "sub_windows s c k = Inr subs"
  shows "(s + i * k, min k (c - i * k)) \<in> set subs"
proof -
  from i have c: "0 < c" by simp
  have "i * k < (c + k - 1) div k * k"
    using i stride_count(3) [OF k c] by (rule less_le_trans)
  then have "i < (c + k - 1) div k"
    by simp
  with subs show ?thesis
    by (auto simp: sub_windows_eq [OF k] intro!: image_eqI [where x = i])
qed

lemma requests_sub_trace:
  "requests (sub_trace t m w) = requests (fst (fetch_features_with_retry t (fst w) (snd w) m))"
  by (cases "fetch_features_with_retry t (fst w) (snd w) m")
    (auto simp: sub_trace_def split: sum.splits)

lemma fetch_requests_shrink:
  assumes "t s c = Timeout" "\<not> c \<le> m" "sub_windows s c (max (c div 10) m) = Inr subs"
  shows "requests (fst (fetch_features_with_retry t s c m)) =
     (s, c) # concat (map (\<lambda>w. requests (fst (fetch_features_with_retry t (fst w) (snd w) m))) subs)"
  using fetch_shrink [of t s c m subs] assms
  by (simp add: requests_concat o_def requests_sub_trace)

lemma fetch_requests_head: "(s, c) \<in> set (requests (fst (fetch_features_with_retry t s c m)))"
proof (cases "t s c")
  case Timeout
  show ?thesis
  proof (cases "c \<le> m")
    case True
    with Timeout show ?thesis by (simp add: fetch_floor)
  next
    case False
    show ?thesis
    proof (cases "sub_windows s c (max (c div 10) m)")
      case (Inl e)
      with Timeout False show ?thesis by (simp add: fetch_range_error)
    next
      case (Inr subs)
      with Timeout False show ?thesis by (simp add: fetch_requests_shrink)
    qed
  qed
next
  case Failure
  then show ?thesis by (simp add: fetch_Failure)
next
  case (Json d)
  then show ?thesis by (simp add: fetch_Json)
qed

lemma descend_requests:
  assumes "t s c = Timeout" "\<not> c \<le> m" "k = max (c div 10) m" "0 < k" "i * k < c"
    and "s' = s + i * k" "c' = min k (c - i * k)"
    and "r \<in> set (requests (fst (fetch_features_with_retry t s' c' m)))"
  shows "r \<in> set (requests (fst (fetch_features_with_retry t s c m)))"
proof -
  from sub_windows_eq [OF assms(4)] obtain subs
    where subs: "sub_windows s c k = Inr subs" by blast
  have mem: "(s', c') \<in> set subs"
    using sub_window_mem [OF assms(4,5) subs] assms(6,7) by simp
  have "requests (fst (fetch_features_with_retry t s c m)) =
     (s, c) # concat (map (\<lambda>w. requests (fst (fetch_features_with_retry t (fst w) (snd w) m))) subs)"
    using fetch_requests_shrink [of t s c m subs] assms(1,2,3) subs by simp
  moreover have "r \<in> set (concat (map (\<lambda>w. requests (fst (fetch_features_with_retry t (fst w) (snd w) m))) subs))"
    unfolding set_concat using mem assms(8) by force
  ultimately show ?thesis
    by simp
qed

lemma descend_records:
  assumes "t s c = Timeout" "\<not> c \<le> m" "k = max (c div 10) m" "0 < k" "i * k < c"
    and "s' = s + i * k" "c' = min k (c - i * k)"
    and "fetch_features_with_retry t s' c' m = (tr, Inr fs)"
    and "x \<in> set fs"
  shows "\<exists>tr' fs'. fetch_features_with_retry t s c m = (tr', Inr fs') \<and> x \<in> set fs'"
proof -
  from sub_windows_eq [OF assms(4)] obtain subs
    where subs: "sub_windows s c k = Inr subs" by blast
  have mem: "(s', c') \<in> set subs"
    using sub_window_mem [OF assms(4,5) subs] assms(6,7) by simp
  have x: "x \<in> set (sub_records t m (s', c'))"
    using assms(8,9) by (simp add: sub_records_def)
  have "snd (fetch_features_with_retry t s c m) = Inr (concat (map (sub_records t m) subs))"
    using fetch_shrink [of t s c m subs] assms(1,2,3) subs by simp
  moreover have "x \<in> set (concat (map (sub_records t m) subs))"
    unfolding set_concat using mem x by force
  ultimately show ?thesis
    by (cases "fetch_features_with_retry t s c m") auto
qed

lemma window_starts_2000: "window_starts 2000 = [0]"
  by (simp add: window_starts_def CHUNK_SIZE_def)

lemma one_bad_run:
  assumes b: "b < 2000" and i: "i < 10" "\<not> (i * 200 \<le> b \<and> b < i * 200 + 200)"
  shows "missing (process_layer (Hits_root (Some 2000)) (one_bad b) (\<lambda>s. True) Absent) = []"
proof -
  let ?s = "i * 200"
  have t: "one_bad b 0 2000 = Timeout"
    using b by (simp add: one_bad_def)
  have j: "one_bad b ?s 200 = Json (Some [?s..<?s + 200])"
    using i(2) by (simp add: one_bad_def)
  have lt: "i * 200 < 2000"
    using i(1) by simp
  then have m: "min 200 (2000 - i * 200) = 200"
    by simp
  have "\<exists>tr' fs'. fetch_features_with_retry (one_bad b) 0 2000 1 = (tr', Inr fs') \<and> ?s \<in> set fs'"
    using descend_records [of "one_bad b" 0 2000 1 200 i ?s 200 "[Request ?s 200]"
        "[?s..<?s + 200]" ?s]
      t fetch_Json [of "one_bad b" ?s 200 "Some [?s..<?s + 200]" 1] j lt m
    by simp
  then have "window_records (one_bad b) 0 \<noteq> []"
    by (auto simp: window_records_def CHUNK_SIZE_def)
  then show ?thesis
    using process_layer_run(1) [of "Hits_root (Some 2000)" "[Hits_request]" 2000 Absent "[]"
        "one_bad b" "\<lambda>s. True"]
    by (simp add: get_feature_count_def check_existing_geopackage_def window_starts_2000)
qed

lemma one_bad_uncovered:
  "\<not> list_ex (\<lambda>w. case one_bad b (fst w) (snd w) of
                      Json (Some page) \<Rightarrow> fst w \<le> b \<and> b < fst w + length page
                    | _ \<Rightarrow> False) ws"
  by (auto simp: list_ex_iff one_bad_def)

text \<open>
  C1 fails on the code. The layer has 2000 records and the upstream cannot serve the one
  at the offset 1999. The window from 0 times out, the shrink fetches the 1999 records
  before it and gives up on the last one at the floor. The window has records, so the
  missing list stays empty: the offset 1999 is in no page that was fetched and in no
  range of the missing list.
\<close>

theorem unrecorded_gap_counterexample:
  "missing (process_layer (Hits_root (Some 2000)) (one_bad 1999) (\<lambda>s. True) Absent) = []
   \<and> \<not> spec_offset_accounted (one_bad 1999)
        (process_layer (Hits_root (Some 2000)) (one_bad 1999) (\<lambda>s. True) Absent) 1999"
proof -
  have "missing (process_layer (Hits_root (Some 2000)) (one_bad 1999) (\<lambda>s. True) Absent) = []"
    by (rule one_bad_run [where i = 0]) simp_all
  then show ?thesis
    by (simp add: spec_offset_accounted_def one_bad_uncovered)
qed

text \<open>
  C2 fails on the code where it says that the window is recorded as unresolved. The
  upstream cannot serve the record at the offset 0: in the run below the window
  \<open>(0, 1)\<close> is requested, times out at the floor and gives the empty list, and the
  missing list of the run is empty.
\<close>

theorem floor_not_recorded_counterexample:
  "one_bad 0 0 1 = Timeout
   \<and> fetch_features_with_retry (one_bad 0) 0 1 1 =
       ([Request 0 1, Warning (Timeout_fetching 0 1), Error (Min_chunk_reached 0)], Inr [])
   \<and> (0, 1) \<in> set (requests (log
         (process_layer (Hits_root (Some 2000)) (one_bad 0) (\<lambda>s. True) Absent)))
   \<and> missing (process_layer (Hits_root (Some 2000)) (one_bad 0) (\<lambda>s. True) Absent) = []"
proof -
  let ?t = "one_bad 0"
  have t: "?t 0 c = Timeout" if "0 < c" for c
    using that by (simp add: one_bad_def)
  have a: "fetch_features_with_retry ?t 0 1 1 =
       ([Request 0 1, Warning (Timeout_fetching 0 1), Error (Min_chunk_reached 0)], Inr [])"
    by (rule fetch_floor) (simp_all add: t)
  have "(0, 1) \<in> set (requests (fst (fetch_features_with_retry ?t 0 1 1)))"
    by (rule fetch_requests_head)
  then have "(0, 1) \<in> set (requests (fst (fetch_features_with_retry ?t 0 2 1)))"
    using descend_requests [of ?t 0 2 1 1 0 0 1 "(0, 1)"] by (simp add: t)
  then have "(0, 1) \<in> set (requests (fst (fetch_features_with_retry ?t 0 20 1)))"
    using descend_requests [of ?t 0 20 1 2 0 0 2 "(0, 1)"] by (simp add: t)
  then have "(0, 1) \<in> set (requests (fst (fetch_features_with_retry ?t 0 200 1)))"
    using descend_requests [of ?t 0 200 1 20 0 0 20 "(0, 1)"] by (simp add: t)
  then have "(0, 1) \<in> set (requests (fst (fetch_features_with_retry ?t 0 2000 1)))"
    using descend_requests [of ?t 0 2000 1 200 0 0 200 "(0, 1)"] by (simp add: t)
  then have b: "(0, 1) \<in> set (requests (log
         (process_layer (Hits_root (Some 2000)) ?t (\<lambda>s. True) Absent)))"
    using process_layer_run(5) [of "Hits_root (Some 2000)" "[Hits_request]" 2000 Absent "[]"
        ?t "\<lambda>s. True"]
    by (simp add: get_feature_count_def check_existing_geopackage_def window_starts_2000
        CHUNK_SIZE_def)
  have c: "missing (process_layer (Hits_root (Some 2000)) ?t (\<lambda>s. True) Absent) = []"
    by (rule one_bad_run [where i = 1]) simp_all
  from a b c show ?thesis
    by (simp add: t)
qed

lemma window_starts_mem:
  assumes "offset < nat count"
  shows "offset div CHUNK_SIZE * CHUNK_SIZE \<in> set (window_starts count)"
proof -
  have cs: "0 < CHUNK_SIZE"
    by (simp add: CHUNK_SIZE_def)
  from assms have c: "0 < nat count"
    by simp
  have "offset div CHUNK_SIZE * CHUNK_SIZE \<le> offset"
    by simp
  also note assms
  also note stride_count(3) [OF cs c]
  finally have "offset div CHUNK_SIZE < (nat count + CHUNK_SIZE - 1) div CHUNK_SIZE"
    by simp
  then show ?thesis
    unfolding window_starts_def by (auto intro!: image_eqI [where x = "offset div CHUNK_SIZE"])
qed

lemma leaf_logged_mono:
  "leaf_logged t m tr w \<Longrightarrow> set tr \<subseteq> set tr' \<Longrightarrow> leaf_logged t m tr' w"
  by (auto simp: leaf_logged_def split: reply.splits)

lemma tiles_cover:
  "tiles a ws b \<Longrightarrow> a \<le> x \<Longrightarrow> x < b \<Longrightarrow> \<exists>w\<in>set ws. fst w \<le> x \<and> x < fst w + snd w"
proof (induction ws arbitrary: a)
  case Nil
  then show ?case by simp
next
  case (Cons v ws)
  from Cons.prems(1) have v: "fst v = a" and rest: "tiles (a + snd v) ws b"
    by simp_all
  show ?case
  proof (cases "x < a + snd v")
    case True
    with v Cons.prems(2) show ?thesis by simp
  next
    case False
    then have "a + snd v \<le> x" by simp
    from Cons.IH [OF rest this Cons.prems(3)] show ?thesis by auto
  qed
qed

lemma sub_trace_covers:
  "set (fst (fetch_features_with_retry t (fst w) (snd w) m)) \<subseteq> set (sub_trace t m w)"
  by (cases "fetch_features_with_retry t (fst w) (snd w) m")
    (auto simp: sub_trace_def split: sum.splits)

lemma every_offset_settled:
  assumes m: "1 \<le> m"
  shows "s \<le> x \<Longrightarrow> x < s + c \<Longrightarrow>
     \<exists>w\<in>set (requests (fst (fetch_features_with_retry t s c m))).
        fst w \<le> x \<and> x < fst w + snd w
        \<and> leaf_logged t m (fst (fetch_features_with_retry t s c m)) w"
proof (induction s c rule: fetch_cases [where t = t and m = m])
  case (Json s c d)
  then show ?case by (simp add: fetch_Json leaf_logged_def)
next
  case (Failure s c)
  then show ?case by (simp add: fetch_Failure leaf_logged_def)
next
  case (Floor s c)
  then show ?case by (simp add: fetch_floor leaf_logged_def)
next
  case (Range_error s c e)
  from m have "0 < max (c div 10) m" by simp
  from sub_windows_eq [OF this, of s c] Range_error.hyps(3) show ?case by simp
next
  case (Shrink s c subs)
  from m have k: "0 < max (c div 10) m"
    by simp
  from Shrink.hyps(2) have c: "0 < c"
    by simp
  from sub_windows_partition [OF k c, of s] Shrink.hyps(3) have tl: "tiles s subs (s + c)"
    by auto
  from tiles_cover [OF tl Shrink.prems] obtain v
    where v: "v \<in> set subs" and x: "fst v \<le> x" "x < fst v + snd v"
    by blast
  from Shrink.IH [OF v x] obtain w
    where w: "w \<in> set (requests (fst (fetch_features_with_retry t (fst v) (snd v) m)))"
      and wx: "fst w \<le> x" "x < fst w + snd w"
      and l: "leaf_logged t m (fst (fetch_features_with_retry t (fst v) (snd v) m)) w"
    by blast
  have tr: "fst (fetch_features_with_retry t s c m) =
      [Request s c, Warning (Timeout_fetching s c), Warning (Retrying s c (max (c div 10) m))]
        @ concat (map (sub_trace t m) subs)"
    using fetch_shrink [of t s c m subs] Shrink.hyps by simp
  have "set (sub_trace t m v) \<subseteq> set (fst (fetch_features_with_retry t s c m))"
    unfolding tr using v by auto
  with sub_trace_covers [of t v m]
  have sub: "set (fst (fetch_features_with_retry t (fst v) (snd v) m))
      \<subseteq> set (fst (fetch_features_with_retry t s c m))"
    by blast
  have "w \<in> set (requests (fst (fetch_features_with_retry t s c m)))"
    using fetch_requests_shrink [of t s c m subs] Shrink.hyps v w by auto
  with wx leaf_logged_mono [OF l sub] show ?case
    by blast
qed

lemma window_trace_covers:
  "set (fst (fetch_features_with_retry t s CHUNK_SIZE 1)) \<subseteq> set (window_trace t s)"
  by (cases "fetch_features_with_retry t s CHUNK_SIZE 1")
    (auto simp: window_trace_def split: sum.splits)

lemma process_layer_run_covers:
  assumes "snd (get_feature_count h) \<noteq> 0"
    and "\<not> snd (check_existing_geopackage g (snd (get_feature_count h)))"
    and "s \<in> set (window_starts (snd (get_feature_count h)))"
  shows "set (window_trace t s) \<subseteq> set (log (process_layer h t readable g))"
proof -
  obtain tr_count count where c: "get_feature_count h = (tr_count, count)"
    by (cases "get_feature_count h")
  obtain tr_check where k: "check_existing_geopackage g count = (tr_check, False)"
    using assms(2) c by (cases "check_existing_geopackage g count") auto
  from assms(1) c have neq: "count \<noteq> 0"
    by simp
  note eq = process_layer_run_eq [OF c neq k, of t readable]
  from assms(3) c show ?thesis
    unfolding eq Let_def by (auto simp: fold_window_step fold_merge_step)
qed


text \<open>
  C1, as the code has it: the run accounts for the layer window by window in the missing
  list, and leaf by leaf in the log. Every offset below the total lies in the window of
  \<^verbatim>\<open>CHUNK_SIZE\<close> offsets that starts at the multiple of \<^verbatim>\<open>CHUNK_SIZE\<close> below it; the
  fetcher returns a list for that window; the start of the window, with its URL, is in
  the missing list exactly when that list is empty; and when it is not empty and the
  chunk file can be read back, its records are in the output that is written.
  \<^verbatim>\<open>total_fetched\<close> is the number of records over all windows. The offset also lies in
  a window that was requested and settled: answered with a body, or failed with the
  failure in the log.
\<close>

theorem every_window_accounted:
  assumes "offset < nat (snd (get_feature_count h))"
    and "\<not> snd (check_existing_geopackage g (snd (get_feature_count h)))"
  shows "let start = offset div CHUNK_SIZE * CHUNK_SIZE; out = process_layer h t readable g in
     start \<in> set (window_starts (snd (get_feature_count h)))
     \<and> start \<le> offset \<and> offset < start + CHUNK_SIZE
     \<and> (\<exists>tr features. fetch_features_with_retry t start CHUNK_SIZE 1 = (tr, Inr features)
          \<and> (features = [] \<longleftrightarrow> (start, Url CHUNK_SIZE start) \<in> set (missing out))
          \<and> (features \<noteq> [] \<and> readable start \<longrightarrow>
                (\<exists>stored. gpkg_after out = Stored stored \<and> set features \<subseteq> set stored)))
     \<and> fetched out =
         sum_list (map (\<lambda>s. length (window_records t s)) (window_starts (snd (get_feature_count h))))
     \<and> (\<exists>w\<in>set (requests (log out)).
          fst w \<le> offset \<and> offset < fst w + snd w \<and> leaf_logged t 1 (log out) w)"
proof -
  let ?count = "snd (get_feature_count h)"
  let ?start = "offset div CHUNK_SIZE * CHUNK_SIZE"
  let ?out = "process_layer h t readable g"
  let ?kept = "filter (\<lambda>s. window_records t s \<noteq> [] \<and> readable s) (window_starts ?count)"
  have cs: "0 < CHUNK_SIZE"
    by (simp add: CHUNK_SIZE_def)
  from assms(1) have nz: "?count \<noteq> 0"
    by auto
  have c: "get_feature_count h = (fst (get_feature_count h), ?count)"
    by simp
  have k: "check_existing_geopackage g ?count = (fst (check_existing_geopackage g ?count), False)"
    using assms(2) by (simp add: prod_eq_iff)
  note run = process_layer_run [OF c nz k, of t readable]
  have mem: "?start \<in> set (window_starts ?count)"
    using assms(1) by (rule window_starts_mem)
  have le: "?start \<le> offset"
    by simp
  have lt: "offset < ?start + CHUNK_SIZE"
    using cs by (metis add.commute mod_less_divisor div_mult_mod_eq add_less_cancel_left mult.commute)
  obtain tr features
    where f: "fetch_features_with_retry t ?start CHUNK_SIZE 1 = (tr, Inr features)"
    using fetch_total [of 1 t ?start CHUNK_SIZE] by auto
  then have wr: "window_records t ?start = features"
    by (simp add: window_records_def)
  have m: "features = [] \<longleftrightarrow> (?start, Url CHUNK_SIZE ?start) \<in> set (missing ?out)"
    using mem wr by (auto simp: run(1))
  have st: "\<exists>stored. gpkg_after ?out = Stored stored \<and> set features \<subseteq> set stored"
    if "features \<noteq> []" "readable ?start"
  proof -
    from that mem wr have in_kept: "?start \<in> set ?kept"
      by simp
    then have "?kept \<noteq> []"
      by (metis empty_iff empty_set)
    moreover from in_kept have "set features \<subseteq> set (concat (map (window_records t) ?kept))"
      unfolding set_concat using wr by force
    ultimately have "?kept \<noteq> []" and "set features \<subseteq> set (concat (map (window_records t) ?kept))"
      by simp_all
    then show ?thesis
      by (simp add: run(4))
  qed
  have leaf: "\<exists>w\<in>set (requests (log ?out)).
          fst w \<le> offset \<and> offset < fst w + snd w \<and> leaf_logged t 1 (log ?out) w"
  proof -
    from every_offset_settled [of 1 ?start offset CHUNK_SIZE t] le lt obtain w
      where w: "w \<in> set (requests (fst (fetch_features_with_retry t ?start CHUNK_SIZE 1)))"
        and wx: "fst w \<le> offset" "offset < fst w + snd w"
        and l: "leaf_logged t 1 (fst (fetch_features_with_retry t ?start CHUNK_SIZE 1)) w"
      by auto
    from w mem have "w \<in> set (requests (log ?out))"
      unfolding run(5) by auto
    moreover have "set (fst (fetch_features_with_retry t ?start CHUNK_SIZE 1)) \<subseteq> set (log ?out)"
      using window_trace_covers [of t ?start]
        process_layer_run_covers [OF nz assms(2) mem, of t readable]
      by blast
    ultimately show ?thesis
      using wx leaf_logged_mono [OF l] by blast
  qed
  from mem le lt f m st run(2) leaf show ?thesis
    unfolding Let_def by blast
qed

theorem every_window_accounted_witness:
  "(2500::nat) < nat (snd (get_feature_count (Hits_root (Some 3000))))
   \<and> \<not> snd (check_existing_geopackage (Absent :: nat gpkg)
              (snd (get_feature_count (Hits_root (Some 3000)))))
   \<and> 2500 div CHUNK_SIZE * CHUNK_SIZE = 2000
   \<and> fetch_features_with_retry broken 2000 CHUNK_SIZE 1 =
       ([Request 2000 CHUNK_SIZE, Error (Failed_to_fetch 2000 CHUNK_SIZE)], Inr [])
   \<and> (2000, Url CHUNK_SIZE 2000)
       \<in> set (missing (process_layer (Hits_root (Some 3000)) broken (\<lambda>s. True) Absent))"
proof -
  have a: "(2500::nat) < nat (snd (get_feature_count (Hits_root (Some 3000))))"
    by (simp add: get_feature_count_def)
  have b: "\<not> snd (check_existing_geopackage (Absent :: nat gpkg)
              (snd (get_feature_count (Hits_root (Some 3000)))))"
    by (simp add: check_existing_geopackage_def)
  have s: "2500 div CHUNK_SIZE * CHUNK_SIZE = 2000"
    by (simp add: CHUNK_SIZE_def)
  have f: "fetch_features_with_retry broken 2000 CHUNK_SIZE 1 =
       ([Request 2000 CHUNK_SIZE, Error (Failed_to_fetch 2000 CHUNK_SIZE)], Inr [])"
    by (simp add: fetch_Failure broken_def)
  from every_window_accounted [OF a b, of broken "\<lambda>s. True"]
  have "(2000, Url CHUNK_SIZE 2000)
       \<in> set (missing (process_layer (Hits_root (Some 3000)) broken (\<lambda>s. True) Absent))"
    unfolding Let_def s using f by simp
  with a b s f show ?thesis
    by simp
qed

section \<open>The size of the shrink recursion\<close>

lemma tiles_bounds:
  "tiles a ws b \<Longrightarrow> w \<in> set ws \<Longrightarrow> a \<le> fst w \<and> fst w + snd w \<le> b"
proof (induction ws arbitrary: a)
  case Nil
  then show ?case by simp
next
  case (Cons v ws)
  from Cons.prems(1) have v: "fst v = a" and rest: "tiles (a + snd v) ws b"
    by simp_all
  from tiles_sum [OF rest] have "a + snd v \<le> b"
    by simp
  with Cons.IH [OF rest] Cons.prems(2) v show ?case
    by auto
qed

lemma sub_window_bounds:
  assumes "0 < k" "0 < c" "sub_windows s c k = Inr subs" "w \<in> set subs"
  shows "s \<le> fst w" "fst w + snd w \<le> s + c" "0 < snd w" "snd w \<le> k"
proof -
  from sub_windows_partition [OF assms(1,2), of s] assms(3)
  have t: "tiles s subs (s + c)"
    by auto
  from tiles_bounds [OF t assms(4)] show "s \<le> fst w" "fst w + snd w \<le> s + c"
    by simp_all
  from assms(3,4) obtain i where i: "i < (c + k - 1) div k" and w: "w = (s + i * k, min k (c - i * k))"
    by (auto simp: sub_windows_eq [OF assms(1)])
  from i have "i * k \<le> ((c + k - 1) div k - 1) * k"
    by (intro mult_le_mono1) simp
  also note stride_count(2) [OF assms(1,2)]
  finally have "i * k < c" .
  with assms(1) w show "0 < snd w" "snd w \<le> k"
    by simp_all
qed

lemma shrink_requests_bounded:
  assumes m: "1 \<le> m"
  shows "1 \<le> c \<Longrightarrow> r \<in> set (requests (fst (fetch_features_with_retry t s c m))) \<Longrightarrow>
     s \<le> fst r \<and> fst r + snd r \<le> s + c \<and> 1 \<le> snd r \<and> (r = (s, c) \<or> snd r < c)"
proof (induction s c arbitrary: r rule: fetch_cases [where t = t and m = m])
  case (Json s c d)
  then show ?case by (simp add: fetch_Json)
next
  case (Failure s c)
  then show ?case by (simp add: fetch_Failure)
next
  case (Floor s c)
  then show ?case by (simp add: fetch_floor)
next
  case (Range_error s c e)
  then show ?case by (simp add: fetch_range_error)
next
  case (Shrink s c subs)
  from m have k: "0 < max (c div 10) m"
    by simp
  from Shrink.prems(1) have c: "0 < c"
    by simp
  have req: "requests (fst (fetch_features_with_retry t s c m)) =
     (s, c) # concat (map (\<lambda>w. requests (fst (fetch_features_with_retry t (fst w) (snd w) m))) subs)"
    using fetch_requests_shrink [of t s c m subs] Shrink.hyps by simp
  show ?case
  proof (cases "r = (s, c)")
    case True
    with c show ?thesis by simp
  next
    case False
    with Shrink.prems(2) req obtain w where w: "w \<in> set subs"
      and r: "r \<in> set (requests (fst (fetch_features_with_retry t (fst w) (snd w) m)))"
      by auto
    note b = sub_window_bounds [OF k c Shrink.hyps(3) w]
    from b(3) have "1 \<le> snd w"
      by simp
    from Shrink.IH [OF w this r]
    have "fst w \<le> fst r" "fst r + snd r \<le> fst w + snd w" "1 \<le> snd r" "snd r \<le> snd w"
      by auto
    moreover have "snd w < c"
      using sub_window_smaller [OF Shrink.hyps(2,3) w] .
    ultimately show ?thesis
      using b(1,2) by simp
  qed
qed













section \<open>Ascending order\<close>

lemma tiles_ordered: "tiles a ws b \<Longrightarrow> sorted_wrt (\<lambda>w w'. fst w + snd w \<le> fst w') ws"
proof (induction ws arbitrary: a)
  case Nil
  show ?case by simp
next
  case (Cons v ws)
  from Cons.prems have v: "fst v = a" and rest: "tiles (a + snd v) ws b"
    by simp_all
  have "fst v + snd v \<le> fst w" if "w \<in> set ws" for w
    using tiles_bounds [OF rest that] v by simp
  with Cons.IH [OF rest] show ?case
    by simp
qed

lemma in_pages_widen:
  "in_pages t s c x \<Longrightarrow> s0 \<le> s \<Longrightarrow> s + c \<le> s0 + c0 \<Longrightarrow> in_pages t s0 c0 x"
  unfolding in_pages_def by (meson le_trans)

lemma sorted_concat_windows:
  assumes asc: "pages_ascend key t"
    and ord: "sorted_wrt (\<lambda>w w'. fst w + snd w \<le> fst w') ws"
    and each: "\<And>w. w \<in> set ws \<Longrightarrow>
      sorted (map key (f w)) \<and> (\<forall>x\<in>set (f w). in_pages t (fst w) (snd w) x)"
  shows "sorted (map key (concat (map f ws)))"
  using ord each
proof (induction ws)
  case Nil
  show ?case by simp
next
  case (Cons w ws)
  have cross: "key x \<le> key y" if x: "x \<in> set (f w)" and y: "y \<in> set (concat (map f ws))" for x y
  proof -
    from y obtain w' where w': "w' \<in> set ws" and yw: "y \<in> set (f w')"
      by auto
    from Cons.prems(1) w' have le: "fst w + snd w \<le> fst w'"
      by simp
    from Cons.prems(2) [of w] x obtain s c page
      where p: "s + c \<le> fst w + snd w" "t s c = Json (Some page)" "x \<in> set page"
      by (auto simp: in_pages_def)
    from Cons.prems(2) [of w'] w' yw obtain s' c' page'
      where p': "fst w' \<le> s'" "t s' c' = Json (Some page')" "y \<in> set page'"
      by (auto simp: in_pages_def)
    from p(1) le p'(1) have "s + c \<le> s'"
      by simp
    with asc p(2,3) p'(2,3) show ?thesis
      unfolding pages_ascend_def by blast
  qed
  have "sorted (map key (concat (map f ws)))"
    using Cons.prems by (intro Cons.IH) simp_all
  moreover have "sorted (map key (f w))"
    using Cons.prems(2) [of w] by simp
  moreover have "\<forall>x\<in>set (map key (f w)). \<forall>y\<in>set (map key (concat (map f ws))). x \<le> y"
    using cross by auto
  ultimately have "sorted (map key (f w) @ map key (concat (map f ws)))"
    unfolding sorted_append by blast
  then show ?case
    by simp
qed

lemma sub_records_sorted:
  assumes srt: "pages_sorted key t" and asc: "pages_ascend key t"
  shows "sorted (map key (sub_records t m (s, c)))
     \<and> (\<forall>x\<in>set (sub_records t m (s, c)). in_pages t s c x)"
proof (induction s c rule: fetch_cases [where t = t and m = m])
  case (Json s c d)
  then show ?case
    using srt by (cases d) (auto simp: sub_records_def fetch_Json pages_sorted_def in_pages_def)
next
  case (Failure s c)
  then show ?case by (simp add: sub_records_def fetch_Failure)
next
  case (Floor s c)
  then show ?case by (simp add: sub_records_def fetch_floor)
next
  case (Range_error s c e)
  then show ?case by (simp add: sub_records_def fetch_range_error)
next
  case (Shrink s c subs)
  have k: "0 < max (c div 10) m"
  proof (rule ccontr)
    assume "\<not> 0 < max (c div 10) m"
    then have "max (c div 10) m = 0"
      by blast
    with Shrink.hyps(3) sub_windows_zero [of s c] show False
      by simp
  qed
  from Shrink.hyps(2) have c: "0 < c"
    by simp
  from sub_windows_partition [OF k c, of s] Shrink.hyps(3) have t: "tiles s subs (s + c)"
    by auto
  have eq: "sub_records t m (s, c) = concat (map (sub_records t m) subs)"
    using fetch_shrink [of t s c m subs] Shrink.hyps by (simp add: sub_records_def)
  have each: "sorted (map key (sub_records t m w))
      \<and> (\<forall>x\<in>set (sub_records t m w). in_pages t (fst w) (snd w) x)" if "w \<in> set subs" for w
    using Shrink.IH [OF that] by simp
  have "sorted (map key (concat (map (sub_records t m) subs)))"
    using asc tiles_ordered [OF t] each by (rule sorted_concat_windows)
  moreover have "in_pages t s c x" if "x \<in> set (concat (map (sub_records t m) subs))" for x
  proof -
    from that obtain w where w: "w \<in> set subs" and x: "x \<in> set (sub_records t m w)"
      by auto
    from each [OF w] x have "in_pages t (fst w) (snd w) x"
      by simp
    with tiles_bounds [OF t w] show ?thesis
      by (auto intro: in_pages_widen)
  qed
  ultimately show ?case
    by (simp add: eq)
qed

lemma window_records_sub_records: "window_records t = (\<lambda>s. sub_records t 1 (s, CHUNK_SIZE))"
proof (rule ext)
  fix s
  show "window_records t s = sub_records t 1 (s, CHUNK_SIZE)"
    by (cases "fetch_features_with_retry t s CHUNK_SIZE 1")
      (auto simp: window_records_def sub_records_def split: sum.splits)
qed

lemma window_starts_ascend: "sorted_wrt (\<lambda>s s'. s + CHUNK_SIZE \<le> s') (window_starts expected)"
proof -
  have "sorted_wrt (\<lambda>i j. i * CHUNK_SIZE + CHUNK_SIZE \<le> j * CHUNK_SIZE) [0..<n]" for n
  proof (rule sorted_wrt_mono_rel [of _ "(<)"])
    fix i j :: nat
    assume "i < j"
    then have "Suc i * CHUNK_SIZE \<le> j * CHUNK_SIZE"
      by (intro mult_le_mono1) simp
    then show "i * CHUNK_SIZE + CHUNK_SIZE \<le> j * CHUNK_SIZE"
      by simp
  qed simp
  then show ?thesis
    by (simp add: window_starts_def sorted_wrt_map)
qed

lemma kept_windows_sorted:
  assumes "pages_sorted key t" and "pages_ascend key t"
  shows "sorted (map key (concat (map (window_records t) (filter P (window_starts expected)))))"
proof -
  let ?ws = "map (\<lambda>s. (s, CHUNK_SIZE)) (filter P (window_starts expected))"
  have ord: "sorted_wrt (\<lambda>w w'. fst w + snd w \<le> fst w') ?ws"
    using window_starts_ascend [of expected] by (simp add: sorted_wrt_map sorted_wrt_filter)
  have each: "sorted (map key (sub_records t 1 w))
      \<and> (\<forall>x\<in>set (sub_records t 1 w). in_pages t (fst w) (snd w) x)" for w
    using sub_records_sorted [OF assms, of 1 "fst w" "snd w"] by simp
  have "sorted (map key (concat (map (sub_records t 1) ?ws)))"
    using assms(2) ord each by (rule sorted_concat_windows)
  then show ?thesis
    by (simp add: o_def window_records_sub_records)
qed

text \<open>
  C5. When every page that the upstream returns is in ascending order of the key, and
  the records of a page are not above those of any page whose window starts at or after
  its end, then the list that the fetcher returns for a window is in ascending order of
  the key, and so is the collection that the downloader writes: it is the records of the
  windows that have some and whose chunk file can be read back, one window after the
  other in the order of their starts, and the starts ascend.
\<close>

theorem assembled_in_key_order:
  assumes "pages_sorted key t" and "pages_ascend key t"
  shows "(\<forall>tr features.
            fetch_features_with_retry t start_index count min_chunk = (tr, Inr features) \<longrightarrow>
            sorted (map key features))
     \<and> sorted_wrt (<) (window_starts expected)
     \<and> (snd (get_feature_count h) \<noteq> 0
          \<and> \<not> snd (check_existing_geopackage g (snd (get_feature_count h))) \<longrightarrow>
          gpkg_after (process_layer h t readable g) =
            (if filter (\<lambda>s. window_records t s \<noteq> [] \<and> readable s)
                  (window_starts (snd (get_feature_count h))) = []
             then g
             else Stored (concat (map (window_records t)
                    (filter (\<lambda>s. window_records t s \<noteq> [] \<and> readable s)
                       (window_starts (snd (get_feature_count h))))))))
     \<and> (gpkg_after (process_layer h t readable g) = g
          \<or> (\<exists>stored. gpkg_after (process_layer h t readable g) = Stored stored
                \<and> sorted (map key stored)))"
proof -
  let ?count = "snd (get_feature_count h)"
  let ?kept = "filter (\<lambda>s. window_records t s \<noteq> [] \<and> readable s) (window_starts ?count)"
  have a: "sorted (map key features)"
    if "fetch_features_with_retry t start_index count min_chunk = (tr, Inr features)"
    for tr features
    using sub_records_sorted [OF assms, of min_chunk start_index count] that
    by (simp add: sub_records_def)
  have cs: "0 < CHUNK_SIZE"
    by (simp add: CHUNK_SIZE_def)
  have b: "sorted_wrt (<) (window_starts expected)"
    by (rule sorted_wrt_mono_rel [OF _ window_starts_ascend]) (use cs in simp)
  have run: "gpkg_after (process_layer h t readable g) =
      (if ?kept = [] then g else Stored (concat (map (window_records t) ?kept)))"
    if "?count \<noteq> 0" "\<not> snd (check_existing_geopackage g ?count)"
    using process_layer_run(4) [of h "fst (get_feature_count h)" ?count g
        "fst (check_existing_geopackage g ?count)" t readable] that
    by (simp add: prod_eq_iff)
  have d: "gpkg_after (process_layer h t readable g) = g
          \<or> (\<exists>stored. gpkg_after (process_layer h t readable g) = Stored stored
                \<and> sorted (map key stored))"
  proof (cases "?count = 0")
    case True
    then show ?thesis
      by (simp add: process_layer_nothing)
  next
    case False
    show ?thesis
    proof (cases "snd (check_existing_geopackage g ?count)")
      case True
      with False show ?thesis
        by (simp add: process_layer_complete)
    next
      case no: False
      from run [OF False no] kept_windows_sorted [OF assms] show ?thesis
        by simp
    qed
  qed
  from a b run d show ?thesis
    by blast
qed

theorem assembled_in_key_order_witness:
  "pages_sorted (\<lambda>x. x) slow \<and> pages_ascend (\<lambda>x. x) slow
   \<and> slow 0 2000 = Timeout
   \<and> (\<exists>tr features. fetch_features_with_retry slow 0 2000 1 = (tr, Inr features)
        \<and> 0 \<in> set features \<and> sorted (map (\<lambda>x. x) features))
   \<and> (\<exists>stored. gpkg_after (process_layer (Hits_root (Some 5000)) slow (\<lambda>s. True) Absent) =
          Stored stored \<and> sorted (map (\<lambda>x. x) stored))"
proof -
  let ?h = "Hits_root (Some 5000)"
  have srt: "pages_sorted (\<lambda>x. x) slow"
    by (auto simp: pages_sorted_def slow_def split: if_splits)
  have asc: "pages_ascend (\<lambda>x. x) slow"
    by (auto simp: pages_ascend_def slow_def split: if_splits)
  note inst = assembled_in_key_order [OF srt asc, of 0 2000 1 5000 ?h Absent "\<lambda>s. True"]
  have t: "slow 0 2000 = Timeout"
    by (simp add: slow_def)
  have j: "fetch_features_with_retry slow 0 200 1 = ([Request 0 200], Inr [0..<200])"
    by (simp add: fetch_Json slow_def)
  obtain tr features where f: "fetch_features_with_retry slow 0 2000 1 = (tr, Inr features)"
    and z: "0 \<in> set features"
    using descend_records [of slow 0 2000 1 200 0 0 200 "[Request 0 200]" "[0..<200]" 0] t j
    by auto
  from inst f have sf: "sorted (map (\<lambda>x. x) features)"
    by blast
  have c: "snd (get_feature_count ?h) = 5000"
    by (simp add: get_feature_count_def)
  have k: "\<not> snd (check_existing_geopackage (Absent :: nat gpkg) 5000)"
    by (simp add: check_existing_geopackage_def)
  have "0 \<in> set (window_starts 5000)"
    using window_starts_mem [of 0 5000] by simp
  moreover have "window_records slow 0 \<noteq> []"
    using f z by (auto simp: window_records_def CHUNK_SIZE_def)
  ultimately have "0 \<in> set (filter (\<lambda>s. window_records slow s \<noteq> [] \<and> True) (window_starts 5000))"
    by simp
  then have "filter (\<lambda>s. window_records slow s \<noteq> [] \<and> True) (window_starts 5000) \<noteq> []"
    by (metis empty_iff empty_set)
  with inst c k have "gpkg_after (process_layer ?h slow (\<lambda>s. True) Absent) \<noteq> Absent"
    by simp
  with inst have "\<exists>stored. gpkg_after (process_layer ?h slow (\<lambda>s. True) Absent) = Stored stored
      \<and> sorted (map (\<lambda>x. x) stored)"
    by blast
  with srt asc t f z sf show ?thesis
    by blast
qed

section \<open>No window is requested twice\<close>

text \<open>
  With a floor of at least 1 the windows that the fetcher requests for one call are all
  different, and so are the windows that a run of the downloader requests: an upstream
  that answers differently over time shows nothing that a function of the window does
  not.
\<close>

lemma distinct_concat_windows:
  fixes ws :: "(nat \<times> nat) list" and f :: "nat \<times> nat \<Rightarrow> (nat \<times> nat) list"
  assumes ord: "sorted_wrt (\<lambda>w w'. fst w + snd w \<le> fst w') ws"
    and each: "\<And>w. w \<in> set ws \<Longrightarrow>
      distinct (f w) \<and>
      (\<forall>r\<in>set (f w). fst w \<le> fst r \<and> fst r + snd r \<le> fst w + snd w \<and> 1 \<le> snd r)"
  shows "distinct (concat (map f ws))"
  using ord each
proof (induction ws)
  case Nil
  show ?case by simp
next
  case (Cons w ws)
  have apart: "r \<noteq> r'" if r: "r \<in> set (f w)" and r': "r' \<in> set (concat (map f ws))" for r r'
  proof -
    from r' obtain w' where w': "w' \<in> set ws" and rw: "r' \<in> set (f w')"
      by auto
    from Cons.prems(1) w' have "fst w + snd w \<le> fst w'"
      by simp
    moreover from Cons.prems(2) [of w] r have "fst r + snd r \<le> fst w + snd w" "1 \<le> snd r"
      by auto
    moreover from Cons.prems(2) [of w'] w' rw have "fst w' \<le> fst r'"
      by auto
    ultimately have "fst r < fst r'"
      by simp
    then show ?thesis
      by auto
  qed
  have "sorted_wrt (\<lambda>w w'. fst w + snd w \<le> fst w') ws"
    using Cons.prems(1) by simp
  moreover have "distinct (f v) \<and>
      (\<forall>r\<in>set (f v). fst v \<le> fst r \<and> fst r + snd r \<le> fst v + snd v \<and> 1 \<le> snd r)"
    if "v \<in> set ws" for v
    using Cons.prems(2) [of v] that by simp
  ultimately have "distinct (concat (map f ws))"
    by (rule Cons.IH)
  moreover have "distinct (f w)"
    using Cons.prems(2) [of w] by simp
  moreover have "set (f w) \<inter> set (concat (map f ws)) = {}"
    using apart by blast
  ultimately show ?case
    by (simp only: list.map concat.simps distinct_append)
qed

lemma no_window_requested_twice:
  assumes m: "1 \<le> m"
  shows "distinct (requests (fst (fetch_features_with_retry t s c m)))"
proof (induction s c rule: fetch_cases [where t = t and m = m])
  case (Json s c d)
  then show ?case by (simp add: fetch_Json)
next
  case (Failure s c)
  then show ?case by (simp add: fetch_Failure)
next
  case (Floor s c)
  then show ?case by (simp add: fetch_floor)
next
  case (Range_error s c e)
  then show ?case by (simp add: fetch_range_error)
next
  case (Shrink s c subs)
  let ?R = "\<lambda>w. requests (fst (fetch_features_with_retry t (fst w) (snd w) m))"
  from m have k: "0 < max (c div 10) m"
    by simp
  from Shrink.hyps(2) have c: "0 < c"
    by simp
  have req: "requests (fst (fetch_features_with_retry t s c m)) = (s, c) # concat (map ?R subs)"
    using fetch_requests_shrink [of t s c m subs] Shrink.hyps by simp
  from sub_windows_partition [OF k c, of s] Shrink.hyps(3) have tl: "tiles s subs (s + c)"
    by auto
  have inside: "fst w \<le> fst r \<and> fst r + snd r \<le> fst w + snd w \<and> 1 \<le> snd r \<and> snd r \<le> snd w"
    if w: "w \<in> set subs" and r: "r \<in> set (?R w)" for w r
  proof -
    from sub_window_bounds(3) [OF k c Shrink.hyps(3) w] have "1 \<le> snd w"
      by simp
    from shrink_requests_bounded [OF m this r] show ?thesis
      by auto
  qed
  have "distinct (concat (map ?R subs))"
  proof (rule distinct_concat_windows [OF tiles_ordered [OF tl]])
    fix w
    assume "w \<in> set subs"
    with Shrink.IH inside show "distinct (?R w) \<and>
      (\<forall>r\<in>set (?R w). fst w \<le> fst r \<and> fst r + snd r \<le> fst w + snd w \<and> 1 \<le> snd r)"
      by blast
  qed
  moreover have "(s, c) \<notin> set (concat (map ?R subs))"
  proof
    assume "(s, c) \<in> set (concat (map ?R subs))"
    then obtain w where w: "w \<in> set subs" and r: "(s, c) \<in> set (?R w)"
      by auto
    from inside [OF w r] sub_window_smaller [OF Shrink.hyps(2,3) w] show False
      by simp
  qed
  ultimately show ?case
    by (simp add: req)
qed

lemma no_window_requested_twice_in_a_run:
  "distinct (requests (log (process_layer h t readable g)))"
proof (cases "snd (get_feature_count h) = 0")
  case True
  then show ?thesis
    by (simp add: process_layer_nothing requests_count)
next
  case False
  show ?thesis
  proof (cases "snd (check_existing_geopackage g (snd (get_feature_count h)))")
    case True
    with False show ?thesis
      by (simp add: process_layer_complete requests_count requests_check)
  next
    case no: False
    let ?R = "\<lambda>w. requests (fst (fetch_features_with_retry t (fst w) (snd w) 1))"
    let ?ws = "map (\<lambda>s. (s, CHUNK_SIZE)) (window_starts (snd (get_feature_count h)))"
    have ord: "sorted_wrt (\<lambda>w w'. fst w + snd w \<le> fst w') ?ws"
      using window_starts_ascend [of "snd (get_feature_count h)"] by (simp add: sorted_wrt_map)
    have "distinct (concat (map ?R ?ws))"
    proof (rule distinct_concat_windows [OF ord])
      fix w
      assume "w \<in> set ?ws"
      then have "1 \<le> snd w"
        by (auto simp: CHUNK_SIZE_def)
      with shrink_requests_bounded [of 1 "snd w" _ t "fst w"]
        no_window_requested_twice [of 1 t "fst w" "snd w"]
      show "distinct (?R w) \<and>
        (\<forall>r\<in>set (?R w). fst w \<le> fst r \<and> fst r + snd r \<le> fst w + snd w \<and> 1 \<le> snd r)"
        by auto
    qed
    then show ?thesis
      using process_layer_run(5) [of h "fst (get_feature_count h)" "snd (get_feature_count h)" g
          "fst (check_existing_geopackage g (snd (get_feature_count h)))" t readable] False no
      by (simp add: prod_eq_iff o_def)
  qed
qed

end
